theory Spec2Isabelle
  imports Complex_Main
begin

section \<open>Strings and character classes\<close>

text \<open>
  A Python \<open>str\<close> is a sequence of code points. The model is \<open>string\<close>, where each
  \<open>char\<close> stands for one code point below 256 (the Latin-1 range), so \<open>length\<close> counts
  code points and \<open>CHR 0xE9\<close> is the single character e-acute. The character classes
  below are Python's \<open>str.isspace\<close>, \<open>str.isupper\<close> and \<open>str.islower\<close> on that range,
  and every statement about a text below is a statement about the texts of that range;
  the regular expression class \<open>\s\<close> of \<open>re\<close> on a \<open>str\<close> pattern is the same set as
  \<open>isspace\<close>.
\<close>

definition code :: "char \<Rightarrow> nat" where
  "code c = of_char c"

definition isspace :: "char \<Rightarrow> bool" where
  "isspace c = ((9 \<le> code c \<and> code c \<le> 13) \<or> (28 \<le> code c \<and> code c \<le> 32)
     \<or> code c = 133 \<or> code c = 160)"

definition is_ascii :: "char \<Rightarrow> bool" where
  "is_ascii c = (code c \<le> 127)"

definition isupper :: "char \<Rightarrow> bool" where
  "isupper c = ((65 \<le> code c \<and> code c \<le> 90) \<or> (192 \<le> code c \<and> code c \<le> 214)
     \<or> (216 \<le> code c \<and> code c \<le> 222))"

definition islower :: "char \<Rightarrow> bool" where
  "islower c = ((97 \<le> code c \<and> code c \<le> 122) \<or> code c = 170 \<or> code c = 181
     \<or> code c = 186 \<or> (223 \<le> code c \<and> code c \<le> 246) \<or> (248 \<le> code c \<and> code c \<le> 255))"

text \<open>
  CPython's \<open>istitle\<close> also asks whether a character is a titlecase letter (category
  \<open>Lt\<close>, such as the digraph at code point 453). No code point below 256 is one.
\<close>

definition istitlecase :: "char \<Rightarrow> bool" where
  "istitlecase c = False"

text \<open>\<open>s.strip()\<close>: whitespace is removed from both ends.\<close>

definition strip :: "string \<Rightarrow> string" where
  "strip s = rev (dropWhile isspace (rev (dropWhile isspace s)))"

text \<open>
  \<open>re.sub(r'\s+', ' ', s)\<close>: scanning from the left, each maximal run of whitespace is
  replaced by one space character.
\<close>

function sub_spaces :: "string \<Rightarrow> string" where
  "sub_spaces [] = []"
| "sub_spaces (c # cs) =
     (if isspace c then CHR '' '' # sub_spaces (dropWhile isspace cs) else c # sub_spaces cs)"
  by pat_completeness auto
termination
  by (relation "measure length") (auto simp: less_Suc_eq_le length_dropWhile_le)

text \<open>
  \<open>re.sub(r'[^\x00-\x7F]+', '', s)\<close>: every run of characters above code point 127 is
  deleted, which deletes exactly the characters above 127.
\<close>

definition sub_non_ascii :: "string \<Rightarrow> string" where
  "sub_non_ascii s = filter is_ascii s"

text \<open>\<open>s.split()\<close>: the maximal runs of non-whitespace characters, in order.\<close>

function split_ws :: "string \<Rightarrow> string list" where
  "split_ws s =
     (case dropWhile isspace s of
        [] \<Rightarrow> []
      | c # cs \<Rightarrow> (c # takeWhile (\<lambda>x. \<not> isspace x) cs)
                   # split_ws (dropWhile (\<lambda>x. \<not> isspace x) cs))"
  by pat_completeness auto
termination
proof (relation "measure length")
  show "wf (measure length)" by simp
next
  fix s :: string and c cs
  assume d: "dropWhile isspace s = c # cs"
  have "length (dropWhile (\<lambda>x. \<not> isspace x) cs) \<le> length cs"
    by (rule length_dropWhile_le)
  moreover have "length (c # cs) \<le> length s"
    using length_dropWhile_le [of isspace s] d by simp
  ultimately show "(dropWhile (\<lambda>x. \<not> isspace x) cs, s) \<in> measure length"
    by simp
qed

declare split_ws.simps [simp del]

text \<open>\<open>' '.join(xs)\<close>.\<close>

fun join :: "string list \<Rightarrow> string" where
  "join [] = []"
| "join [x] = x"
| "join (x # y # ys) = x @ CHR '' '' # join (y # ys)"

section \<open>The transcript cleaner\<close>

text \<open>
  \<^verbatim>\<open>
  def clean_transcript(text):
      text = text.strip()
      text = re.sub(r'\s+', ' ', text)
      text = re.sub(r'[^\x00-\x7F]+', '', text)
      return text
  \<close>
\<close>

definition clean_transcript :: "string \<Rightarrow> string" where
  "clean_transcript text = sub_non_ascii (sub_spaces (strip text))"

text \<open>
  Whitespace-normal strings, stated on the characters: no whitespace at either end, and
  no two whitespace characters next to each other.
\<close>

definition trimmed :: "string \<Rightarrow> bool" where
  "trimmed s = (s = [] \<or> (\<not> isspace (hd s) \<and> \<not> isspace (last s)))"

fun no_ws_run :: "string \<Rightarrow> bool" where
  "no_ws_run (a # b # cs) = (\<not> (isspace a \<and> isspace b) \<and> no_ws_run (b # cs))"
| "no_ws_run cs = True"


text \<open>
  The printable range of 7-bit ASCII, as the specification words the cleaner's output.
\<close>

definition printable :: "char \<Rightarrow> bool" where
  "printable c = (32 \<le> code c \<and> code c \<le> 126)"

section \<open>The name corrector\<close>

datatype error = TypeError | KeyError | IndexError | OSError | UnicodeDecodeError
  | RequestException | JSONDecodeError

text \<open>
  \<open>word.istitle()\<close>, as CPython computes it: one pass over the characters that remembers
  whether the previous character was cased and whether any cased character was seen. An
  uppercase or titlecase character after a cased one, or a lowercase character after an
  uncased one (or at the start), ends the scan with \<open>False\<close>.
\<close>

fun istitle_scan :: "bool \<Rightarrow> bool \<Rightarrow> string \<Rightarrow> bool" where
  "istitle_scan previous_is_cased cased [] = cased"
| "istitle_scan previous_is_cased cased (ch # rest) =
     (if isupper ch \<or> istitlecase ch then
        (if previous_is_cased then False else istitle_scan True True rest)
      else if islower ch then
        (if \<not> previous_is_cased then False else istitle_scan True True rest)
      else istitle_scan False cased rest)"

definition istitle :: "string \<Rightarrow> bool" where
  "istitle s = istitle_scan False False s"

text \<open>
  The scorer \<open>fuzz.token_set_ratio\<close> belongs to the fuzzy-matching library, not to this
  program: it is a parameter of the model, a function from the query and a candidate to
  a score (the library's scores run from 0 to 100).

  \<open>process.extractOne(query, choices, scorer=...)\<close> scores every choice and returns the
  pair of the best choice and its score, or \<open>None\<close> when there is no choice to return.
  The best pair is Python's \<open>max\<close> over the pairs by score, which keeps the first of
  several maximal pairs. The library's score cutoff is 0 here and admits every score.
\<close>

type_synonym scorer = "string \<Rightarrow> string \<Rightarrow> nat"

fun max_by_score :: "string \<times> nat \<Rightarrow> (string \<times> nat) list \<Rightarrow> string \<times> nat" where
  "max_by_score best [] = best"
| "max_by_score best (x # xs) = max_by_score (if snd best < snd x then x else best) xs"

definition extractOne :: "scorer \<Rightarrow> string \<Rightarrow> string list \<Rightarrow> (string \<times> nat) option" where
  "extractOne sc query choices =
     (case map (\<lambda>choice. (choice, sc query choice)) choices of
        [] \<Rightarrow> None
      | x # xs \<Rightarrow> Some (max_by_score x xs))"

text \<open>
  \<^verbatim>\<open>
  def find_closest_player_name(transcript_name, player_master_list):
      best_match, score = process.extractOne(transcript_name, player_master_list,
                                              scorer=fuzz.token_set_ratio)
      if score >= 80:
          return best_match
      else:
          return None
  \<close>
  Unpacking \<open>None\<close> into \<open>best_match, score\<close> raises \<open>TypeError\<close>.
\<close>

definition find_closest_player_name :: "scorer \<Rightarrow> string \<Rightarrow> string list \<Rightarrow> error + string option" where
  "find_closest_player_name sc transcript_name player_master_list =
     (case extractOne sc transcript_name player_master_list of
        None \<Rightarrow> Inl TypeError
      | Some (best_match, score) \<Rightarrow> Inr (if 80 \<le> score then Some best_match else None))"

text \<open>
  \<^verbatim>\<open>
  def correct_player_names(transcript, player_master_list):
      words = transcript.split()
      corrected_words = []
      for word in words:
          if word.istitle():
              possible_player_name = find_closest_player_name(word, player_master_list)
              if possible_player_name:
                  corrected_words.append(possible_player_name)
              else:
                  corrected_words.append(word)
          else:
              corrected_words.append(word)
      return " ".join(corrected_words)
  \<close>
  The test \<open>if possible_player_name\<close> is Python's truth value: \<open>None\<close> and the empty
  string are both false.
\<close>

fun truthy_name :: "string option \<Rightarrow> bool" where
  "truthy_name None = False"
| "truthy_name (Some n) = (n \<noteq> [])"

fun correct_loop :: "scorer \<Rightarrow> string list \<Rightarrow> string list \<Rightarrow> string list \<Rightarrow> error + string list" where
  "correct_loop sc player_master_list corrected_words [] = Inr corrected_words"
| "correct_loop sc player_master_list corrected_words (word # words) =
     (if istitle word then
        (case find_closest_player_name sc word player_master_list of
           Inl e \<Rightarrow> Inl e
         | Inr possible_player_name \<Rightarrow>
             (if truthy_name possible_player_name
              then correct_loop sc player_master_list
                     (corrected_words @ [the possible_player_name]) words
              else correct_loop sc player_master_list (corrected_words @ [word]) words))
      else correct_loop sc player_master_list (corrected_words @ [word]) words)"

definition correct_player_names :: "scorer \<Rightarrow> string \<Rightarrow> string list \<Rightarrow> error + string" where
  "correct_player_names sc transcript player_master_list =
     (case correct_loop sc player_master_list [] (split_ws transcript) of
        Inl e \<Rightarrow> Inl e
      | Inr corrected_words \<Rightarrow> Inr (join corrected_words))"

text \<open>
  The title-case rule as the specification words it: the first character is uppercase
  and the remaining characters are lowercase.
\<close>

definition spec_title_cased :: "string \<Rightarrow> bool" where
  "spec_title_cased w = (case w of [] \<Rightarrow> False | c # cs \<Rightarrow> isupper c \<and> list_all islower cs)"

text \<open>
  The rule that \<open>istitle\<close> computes, stated on positions: some character is cased
  (uppercase, titlecase or lowercase), every uppercase or titlecase character stands
  first or after an uncased character, and every lowercase character stands after a
  cased character.
\<close>

definition cased :: "char \<Rightarrow> bool" where
  "cased c = (isupper c \<or> istitlecase c \<or> islower c)"

definition title_rule :: "string \<Rightarrow> bool" where
  "title_rule w =
     (list_ex cased w \<and>
      list_all (\<lambda>i. (isupper (w ! i) \<or> istitlecase (w ! i)
                        \<longrightarrow> i = 0 \<or> \<not> cased (w ! (i - 1))) \<and>
                     (islower (w ! i) \<longrightarrow> 0 < i \<and> cased (w ! (i - 1))))
        [0..<length w])"

text \<open>
  Whether position \<open>i\<close> of a string follows a cased character; before the first
  position stands the flag \<open>p\<close> the scan starts with.
\<close>

definition follows :: "bool \<Rightarrow> string \<Rightarrow> nat \<Rightarrow> bool" where
  "follows p s i = (if i = 0 then p else cased (s ! (i - 1)))"

text \<open>
  A string is single-spaced when it has no whitespace at either end, no two whitespace
  characters in a row, and its only whitespace character is the space.
\<close>

definition single_spaced :: "string \<Rightarrow> bool" where
  "single_spaced s = (trimmed s \<and> no_ws_run s \<and> list_all (\<lambda>c. isspace c \<longrightarrow> c = CHR '' '') s)"

text \<open>
  The word that one pass of the loop body appends to \<open>corrected_words\<close> when
  \<open>find_closest_player_name\<close> does not raise: the returned name when it is true in
  Python's sense, the word itself otherwise.
\<close>

definition appended :: "scorer \<Rightarrow> string list \<Rightarrow> string \<Rightarrow> string" where
  "appended sc roster word =
     (if istitle word then
        (case find_closest_player_name sc word roster of
           Inr (Some n) \<Rightarrow> if n = [] then word else n
         | _ \<Rightarrow> word)
      else word)"

text \<open>
  A scorer to run the corrector on concrete inputs. It has the defining property of a
  token-set score, that a string whose words are all among the words of the other scores
  100, whatever the case, the order and the punctuation; every other pair scores 0 here,
  where the library gives some score from 0 to 100.
\<close>

definition alnum_lower :: "char \<Rightarrow> char" where
  "alnum_lower c =
     (if 65 \<le> code c \<and> code c \<le> 90 then char_of (code c + 32)
      else if (97 \<le> code c \<and> code c \<le> 122) \<or> (48 \<le> code c \<and> code c \<le> 57) then c
      else CHR '' '')"

definition words_of :: "string \<Rightarrow> string list" where
  "words_of s = split_ws (map alnum_lower s)"

definition word_set_scorer :: scorer where
  "word_set_scorer query choice =
     (let a = words_of query; b = words_of choice
      in if a \<noteq> [] \<and> b \<noteq> [] \<and> (list_all (\<lambda>w. w \<in> set b) a \<or> list_all (\<lambda>w. w \<in> set a) b)
         then 100 else 0)"

section \<open>The season label\<close>

text \<open>
  \<open>datetime.now()\<close> is read for its year and month only. \<open>str\<close> of a Python integer is
  its decimal numeral, and \<open>s[2:]\<close> drops the first two characters.
  \<^verbatim>\<open>
  def _get_current_season(self):
      now = datetime.now()
      year = now.year
      if now.month >= 10:
          return f"{year}-{str(year + 1)[2:]}"
      else:
          return f"{year - 1}-{str(year)[2:]}"
  \<close>
\<close>

record datetime =
  year :: int
  month :: int

definition digit :: "nat \<Rightarrow> char" where
  "digit d = ''0123456789'' ! d"

function str_nat :: "nat \<Rightarrow> string" where
  "str_nat n = (if n < 10 then [digit n] else str_nat (n div 10) @ [digit (n mod 10)])"
  by pat_completeness auto
termination
  by (relation "measure id") auto

declare str_nat.simps [simp del]

definition str :: "int \<Rightarrow> string" where
  "str i = (if i < 0 then CHR ''-'' # str_nat (nat (- i)) else str_nat (nat i))"

definition get_current_season :: "datetime \<Rightarrow> string" where
  "get_current_season now =
     (if 10 \<le> month now
      then str (year now) @ ''-'' @ drop 2 (str (year now + 1))
      else str (year now - 1) @ ''-'' @ drop 2 (str (year now)))"

text \<open>
  The label as the specification words it: the two-digit suffix of a year is its last
  two decimal digits.
\<close>

definition two_digit_suffix :: "int \<Rightarrow> string" where
  "two_digit_suffix y = [digit (nat (y mod 100) div 10), digit (nat (y mod 100) mod 10)]"

definition season_label_spec :: "datetime \<Rightarrow> string" where
  "season_label_spec now =
     (if 10 \<le> month now
      then str (year now) @ ''-'' @ two_digit_suffix (year now + 1)
      else str (year now - 1) @ ''-'' @ two_digit_suffix (year now))"


section \<open>The roster cache and the fetcher\<close>

text \<open>
  The values that \<open>json.load\<close> and \<open>response.json()\<close> produce: \<open>None\<close>, booleans,
  numbers, strings, lists and dictionaries with string keys. A \<open>PDict\<close> lists the items
  of the dictionary. Numbers are rationals: the arithmetic on them is exact, where Python
  computes with floats.
\<close>

datatype py = PNone | PBool bool | PNum rat | PStr string | PList "py list"
  | PDict "(string \<times> py) list"

text \<open>Sequencing of steps that may raise: the first exception ends the computation.\<close>

definition and_then :: "error + 'a \<Rightarrow> ('a \<Rightarrow> error + 'b) \<Rightarrow> error + 'b" where
  "and_then m f = (case m of Inl e \<Rightarrow> Inl e | Inr x \<Rightarrow> f x)"

text \<open>Python's truth value of an object, as \<open>if cached_data:\<close> tests it.\<close>

fun truthy :: "py \<Rightarrow> bool" where
  "truthy PNone = False"
| "truthy (PBool b) = b"
| "truthy (PNum r) = (r \<noteq> 0)"
| "truthy (PStr s) = (s \<noteq> [])"
| "truthy (PList xs) = (xs \<noteq> [])"
| "truthy (PDict kvs) = (kvs \<noteq> [])"

text \<open>
  \<open>obj['key']\<close> with a string key: a dictionary looks the key up and raises \<open>KeyError\<close>
  when it is missing; a list or a string takes integer indices only, and the other values
  cannot be subscripted, which are both \<open>TypeError\<close>.
\<close>

fun getkey :: "py \<Rightarrow> string \<Rightarrow> error + py" where
  "getkey (PDict kvs) k = (case map_of kvs k of None \<Rightarrow> Inl KeyError | Some v \<Rightarrow> Inr v)"
| "getkey obj k = Inl TypeError"

text \<open>
  \<open>obj[0]\<close>: the first element of a list or the first character of a string,
  \<open>IndexError\<close> when there is none; a dictionary with string keys has no key \<open>0\<close>.
\<close>

fun getfirst :: "py \<Rightarrow> error + py" where
  "getfirst (PList []) = Inl IndexError"
| "getfirst (PList (x # xs)) = Inr x"
| "getfirst (PStr []) = Inl IndexError"
| "getfirst (PStr (c # cs)) = Inr (PStr [c])"
| "getfirst (PDict kvs) = Inl KeyError"
| "getfirst obj = Inl TypeError"

text \<open>
  Iteration, as \<open>for\<close> and \<open>zip\<close> do it: the elements of a list, the characters of a
  string, the keys of a dictionary; the other values are not iterable.
\<close>

fun iterate :: "py \<Rightarrow> error + py list" where
  "iterate (PList xs) = Inr xs"
| "iterate (PStr s) = Inr (map (\<lambda>c. PStr [c]) s)"
| "iterate (PDict kvs) = Inr (map (\<lambda>kv. PStr (fst kv)) kvs)"
| "iterate obj = Inl TypeError"

text \<open>A number in arithmetic: \<open>True\<close> and \<open>False\<close> count as 1 and 0.\<close>

fun number :: "py \<Rightarrow> error + rat" where
  "number (PNum r) = Inr r"
| "number (PBool b) = Inr (if b then 1 else 0)"
| "number obj = Inl TypeError"

text \<open>
  \<open>dict(zip(headers, player))\<close>: the pairs of the two sequences up to the shorter one. A
  list or a dictionary cannot be a key. The dictionary keeps the last value of a key, so
  a lookup searches the pairs from the end.
\<close>

fun hashable :: "py \<Rightarrow> bool" where
  "hashable (PList xs) = False"
| "hashable (PDict kvs) = False"
| "hashable obj = True"

definition dict_zip :: "py \<Rightarrow> py \<Rightarrow> error + (py \<times> py) list" where
  "dict_zip headers player =
     and_then (iterate headers) (\<lambda>hs.
     and_then (iterate player) (\<lambda>ps.
       if list_all hashable (map fst (zip hs ps)) then Inr (zip hs ps) else Inl TypeError))"

definition lookup :: "(py \<times> py) list \<Rightarrow> string \<Rightarrow> error + py" where
  "lookup player_dict k =
     (case map_of (rev player_dict) (PStr k) of None \<Rightarrow> Inl KeyError | Some v \<Rightarrow> Inr v)"

text \<open>
  The state the fetcher runs in: the cache file, the clock (\<open>time.time()\<close>), the date
  (\<open>datetime.now()\<close>), what the request to the remote endpoint yields, and whether the
  cache file can be written. The cache file is missing, or exists and cannot be opened,
  or cannot be decoded as text, or is text that is not JSON, or holds a JSON value. The
  request fails in the session (connection error, timeout, retries used up), or gets a
  response with an error status, or a body that is not JSON, or a JSON body.
\<close>

datatype file_state = Missing | Unreadable | NotText | Malformed | Parsed py

datatype response = ConnectionFailed | BadStatus | NotJSON | Body py

record world =
  cache_file :: file_state
  clock :: rat
  today :: datetime
  network :: response
  writable :: bool

text \<open>
  \<^verbatim>\<open>
  def _load_cache(self):
      try:
          if os.path.exists(self.cache_file):
              with open(self.cache_file, 'r') as f:
                  cache = json.load(f)
                  if time.time() - cache['timestamp'] < self.cache_duration:
                      return cache['data']
      except json.JSONDecodeError:
          print("Error decoding JSON from cache. Fetching from API...")
      return None
  \<close>
  Only \<open>json.JSONDecodeError\<close> is caught; \<open>cache_duration\<close> is \<open>24 * 60 * 60\<close>.
\<close>

definition load_cache :: "world \<Rightarrow> error + py" where
  "load_cache w =
     (case cache_file w of
        Missing \<Rightarrow> Inr PNone
      | Unreadable \<Rightarrow> Inl OSError
      | NotText \<Rightarrow> Inl UnicodeDecodeError
      | Malformed \<Rightarrow> Inr PNone
      | Parsed cache \<Rightarrow>
          and_then (getkey cache ''timestamp'') (\<lambda>timestamp.
          and_then (number timestamp) (\<lambda>t.
            if clock w - t < 24 * 60 * 60 then getkey cache ''data'' else Inr PNone)))"

text \<open>
  \<^verbatim>\<open>
  def _save_cache(self, data):
      cache = {'timestamp': time.time(), 'data': data}
      with open(self.cache_file, 'w') as f:
          json.dump(cache, f)
  \<close>
\<close>

definition save_cache :: "world \<Rightarrow> py \<Rightarrow> error + file_state" where
  "save_cache w data =
     (if writable w
      then Inr (Parsed (PDict [(''timestamp'', PNum (clock w)), (''data'', data)]))
      else Inl OSError)"

text \<open>
  A data frame is modelled by the records it is built from: \<open>pd.DataFrame(x)\<close> is
  \<open>DataFrame x\<close>, \<open>pd.DataFrame()\<close> is the frame of no records, and
  \<open>df.to_dict('records')\<close> gives the records back. Two things that pandas does are left
  out: the constructor rejects data that is not tabular, such as a number or a string,
  with \<open>ValueError\<close>, and \<open>to_dict\<close> may change how a value is written (a missing value
  becomes \<open>NaN\<close>). Nothing below rests on a frame built from cached data or on the
  content of the cache after a successful request.
\<close>

datatype dataframe = DataFrame py

text \<open>
  The body of the loop over the rows of the response:
  \<^verbatim>\<open>
  player_dict = dict(zip(headers, player))
  if player_dict['TO_YEAR'] == self._get_current_season()[:4]:
      players.append({
          'player_id': player_dict['PERSON_ID'],
          'full_name': player_dict['DISPLAY_FIRST_LAST'],
          'team_id': player_dict['TEAM_ID'],
          'team': player_dict['TEAM_NAME'] if player_dict['TEAM_ID']!=0 else "Free Agent",
          'is_active': True
      })
  \<close>
\<close>

definition is_zero :: "py \<Rightarrow> bool" where
  "is_zero v = (v = PNum 0 \<or> v = PBool False)"

definition player_record :: "string \<Rightarrow> (py \<times> py) list \<Rightarrow> error + py option" where
  "player_record season_year player_dict =
     and_then (lookup player_dict ''TO_YEAR'') (\<lambda>to_year.
       if to_year = PStr season_year then
         and_then (lookup player_dict ''PERSON_ID'') (\<lambda>person_id.
         and_then (lookup player_dict ''DISPLAY_FIRST_LAST'') (\<lambda>full_name.
         and_then (lookup player_dict ''TEAM_ID'') (\<lambda>team_id.
         and_then (if is_zero team_id then Inr (PStr ''Free Agent'')
                   else lookup player_dict ''TEAM_NAME'') (\<lambda>team.
           Inr (Some (PDict [(''player_id'', person_id), (''full_name'', full_name),
                             (''team_id'', team_id), (''team'', team),
                             (''is_active'', PBool True)]))))))
       else Inr None)"

fun collect_players :: "string \<Rightarrow> py \<Rightarrow> py list \<Rightarrow> py list \<Rightarrow> error + py list" where
  "collect_players season_year headers players [] = Inr players"
| "collect_players season_year headers players (player # rows) =
     and_then (dict_zip headers player) (\<lambda>player_dict.
     and_then (player_record season_year player_dict) (\<lambda>r.
       collect_players season_year headers
         (case r of None \<Rightarrow> players | Some p \<Rightarrow> players @ [p]) rows))"

text \<open>
  The \<open>try\<close> block of \<open>fetch_players\<close>: the request, the parsing of the response, the
  filter, and the write of the cache. It yields the data frame and the new cache file,
  or the exception that ended it.
  \<^verbatim>\<open>
  response = self.session.get(self.base_url, params=params, headers=self.headers, timeout=15)
  response.raise_for_status()
  data = response.json()
  headers = data['resultSets'][0]['headers']
  players_data = data['resultSets'][0]['rowSet']
  players = []
  for player in players_data:
      ...
  df = pd.DataFrame(players)
  self._save_cache(df.to_dict('records'))
  return df
  \<close>
\<close>

definition result_set :: "py \<Rightarrow> error + py" where
  "result_set data = and_then (getkey data ''resultSets'') getfirst"

definition request_players :: "world \<Rightarrow> error + dataframe \<times> file_state" where
  "request_players w =
     (case network w of
        ConnectionFailed \<Rightarrow> Inl RequestException
      | BadStatus \<Rightarrow> Inl RequestException
      | NotJSON \<Rightarrow> Inl JSONDecodeError
      | Body data \<Rightarrow>
          and_then (result_set data) (\<lambda>rs.
          and_then (getkey rs ''headers'') (\<lambda>headers.
          and_then (result_set data) (\<lambda>rs'.
          and_then (getkey rs' ''rowSet'') (\<lambda>players_data.
          and_then (iterate players_data) (\<lambda>rows.
          and_then (collect_players (take 4 (get_current_season (today w))) headers [] rows)
            (\<lambda>players.
          and_then (save_cache w (PList players)) (\<lambda>file.
            Inr (DataFrame (PList players), file)))))))))"

text \<open>
  \<^verbatim>\<open>
  def fetch_players(self, use_cache=True, invalidate_cache=False):
      if use_cache and not invalidate_cache:
          cached_data = self._load_cache()
          if cached_data:
              return pd.DataFrame(cached_data)
      try:
          ...
      except requests.exceptions.RequestException as e: ...
      except json.JSONDecodeError as e: ...
      except KeyError as e: ...
      except Exception as e: ...
      if use_cache:
          cached_data = self._load_cache()
          if cached_data:
              return pd.DataFrame(cached_data)
      return pd.DataFrame()
  \<close>
  Every exception of the \<open>try\<close> block is caught and printed. The two calls of
  \<open>_load_cache\<close> stand outside the block. The result is the returned data frame or the
  exception that leaves the function, together with the cache file afterwards.
\<close>

definition cache_fallback :: "world \<Rightarrow> bool \<Rightarrow> error + dataframe" where
  "cache_fallback w use_cache =
     (if use_cache then
        and_then (load_cache w) (\<lambda>cached_data.
          if truthy cached_data then Inr (DataFrame cached_data) else Inr (DataFrame (PList [])))
      else Inr (DataFrame (PList [])))"

definition fetch_after_cache :: "world \<Rightarrow> bool \<Rightarrow> (error + dataframe) \<times> file_state" where
  "fetch_after_cache w use_cache =
     (case request_players w of
        Inr (df, file) \<Rightarrow> (Inr df, file)
      | Inl e \<Rightarrow> (cache_fallback w use_cache, cache_file w))"

definition fetch_players :: "world \<Rightarrow> bool \<Rightarrow> bool \<Rightarrow> (error + dataframe) \<times> file_state" where
  "fetch_players w use_cache invalidate_cache =
     (if use_cache \<and> \<not> invalidate_cache then
        (case load_cache w of
           Inl e \<Rightarrow> (Inl e, cache_file w)
         | Inr cached_data \<Rightarrow>
             if truthy cached_data then (Inr (DataFrame cached_data), cache_file w)
             else fetch_after_cache w use_cache)
      else fetch_after_cache w use_cache)"

section \<open>Properties of the transcript cleaner\<close>

lemma dropWhile_hd: "dropWhile P xs = y # ys \<Longrightarrow> \<not> P y"
  using hd_dropWhile [of P xs] by auto

lemma last_dropWhile_ne: "dropWhile P xs \<noteq> [] \<Longrightarrow> last (dropWhile P xs) = last xs"
  by (metis last_appendR takeWhile_dropWhile_id)

lemma sub_spaces_space: "c \<in> set (sub_spaces s) \<Longrightarrow> isspace c \<Longrightarrow> c = CHR '' ''"
  by (induction s rule: sub_spaces.induct) (auto split: if_splits)

lemma strip_trimmed: "trimmed (strip s)"
proof -
  define t where "t = dropWhile isspace s"
  define u where "u = dropWhile isspace (rev t)"
  have s: "strip s = rev u"
    by (simp add: strip_def t_def u_def)
  show ?thesis
  proof (cases "u = []")
    case True
    then show ?thesis using s by (simp add: trimmed_def)
  next
    case False
    then obtain y ys where u: "u = y # ys"
      by (cases u) auto
    then have "\<not> isspace y"
      using dropWhile_hd [of isspace "rev t" y ys] by (simp add: u_def)
    then have l: "\<not> isspace (last (rev u))"
      using u by simp
    have "last u = last (rev t)"
      using False last_dropWhile_ne [of isspace "rev t"] by (simp add: u_def)
    moreover have tne: "t \<noteq> []"
      using False by (auto simp: u_def)
    ultimately have "last u = hd t"
      by (simp add: last_rev)
    moreover have "\<not> isspace (hd t)"
      using tne hd_dropWhile [of isspace s] by (simp add: t_def)
    ultimately have "\<not> isspace (hd (rev u))"
      using False by (simp add: hd_rev)
    then show ?thesis using l False s by (simp add: trimmed_def)
  qed
qed

subsection \<open>Splitting and joining\<close>

lemma split_ws_Nil:
  assumes "dropWhile isspace s = []"
  shows "split_ws s = []"
  by (subst split_ws.simps) (simp only: assms list.case)

lemma split_ws_Cons:
  assumes "dropWhile isspace s = c # cs"
  shows "split_ws s =
    (c # takeWhile (\<lambda>x. \<not> isspace x) cs) # split_ws (dropWhile (\<lambda>x. \<not> isspace x) cs)"
  by (subst split_ws.simps) (simp only: assms list.case)

lemma split_ws_tokens:
  "w \<in> set (split_ws s) \<Longrightarrow> w \<noteq> [] \<and> (\<forall>c\<in>set w. \<not> isspace c)"
proof (induction s rule: split_ws.induct)
  case (1 s)
  show ?case
  proof (cases "dropWhile isspace s")
    case Nil
    then show ?thesis using "1.prems" by (simp add: split_ws_Nil)
  next
    case (Cons c cs)
    from "1.prems" split_ws_Cons [OF Cons]
    consider "w = c # takeWhile (\<lambda>x. \<not> isspace x) cs"
      | "w \<in> set (split_ws (dropWhile (\<lambda>x. \<not> isspace x) cs))"
      by auto
    then show ?thesis
    proof cases
      case 1
      have "\<not> isspace c" using Cons by (rule dropWhile_hd)
      moreover have "\<forall>x\<in>set (takeWhile (\<lambda>x. \<not> isspace x) cs). \<not> isspace x"
        by (auto dest: set_takeWhileD)
      ultimately show ?thesis using 1 by simp
    next
      case 2
      then show ?thesis by (rule "1.IH" [OF Cons])
    qed
  qed
qed

lemma no_ws_run_append:
  "no_ws_run (a @ b) =
     (no_ws_run a \<and> no_ws_run b \<and> (a \<noteq> [] \<and> b \<noteq> [] \<longrightarrow> \<not> (isspace (last a) \<and> isspace (hd b))))"
proof (induction a)
  case Nil
  then show ?case by simp
next
  case (Cons x a)
  show ?case
  proof (cases a)
    case Nil
    then show ?thesis by (cases b) auto
  next
    case (Cons y a')
    then show ?thesis using Cons.IH by auto
  qed
qed

lemma no_ws_run_plain: "\<forall>c\<in>set w. \<not> isspace c \<Longrightarrow> no_ws_run w"
  by (induction w rule: no_ws_run.induct) auto

lemma token_single_spaced:
  assumes "w \<noteq> []" "\<forall>c\<in>set w. \<not> isspace c"
  shows "single_spaced w"
proof -
  have "\<not> isspace (hd w)" "\<not> isspace (last w)"
    using assms by auto
  then show ?thesis
    using assms no_ws_run_plain [of w] by (auto simp: single_spaced_def trimmed_def list_all_iff)
qed

lemma join_Cons: "join (x # xs) = (if xs = [] then x else x @ CHR '' '' # join xs)"
  by (cases xs) auto

lemma join_ne: "ws \<noteq> [] \<Longrightarrow> \<forall>w\<in>set ws. w \<noteq> [] \<Longrightarrow> join ws \<noteq> []"
  by (cases ws) (auto simp: join_Cons)

lemma hd_join: "ws \<noteq> [] \<Longrightarrow> hd ws \<noteq> [] \<Longrightarrow> hd (join ws) = hd (hd ws)"
  by (cases ws) (auto simp: join_Cons)

lemma single_spaced_join:
  "\<forall>w\<in>set ws. w \<noteq> [] \<and> single_spaced w \<Longrightarrow> single_spaced (join ws)"
proof (induction ws rule: join.induct)
  case 1
  then show ?case by (simp add: single_spaced_def trimmed_def)
next
  case (2 x)
  then show ?case by simp
next
  case (3 x y ys)
  define r where "r = join (y # ys)"
  have r: "single_spaced r" unfolding r_def using 3 by simp
  have rne: "r \<noteq> []" unfolding r_def using 3(2) by (intro join_ne) auto
  have x: "x \<noteq> []" "single_spaced x" using 3(2) by auto
  have hx: "\<not> isspace (hd x)" "\<not> isspace (last x)"
    using x by (auto simp: single_spaced_def trimmed_def)
  have hr: "\<not> isspace (hd r)" "\<not> isspace (last r)"
    using r rne by (auto simp: single_spaced_def trimmed_def)
  have j: "join (x # y # ys) = x @ CHR '' '' # r" by (simp add: r_def)
  have "trimmed (x @ CHR '' '' # r)"
    using x hx hr rne by (simp add: trimmed_def)
  moreover have "no_ws_run (CHR '' '' # r)"
    using r rne hr by (cases r) (auto simp: single_spaced_def)
  then have "no_ws_run (x @ CHR '' '' # r)"
    using x hx by (simp add: no_ws_run_append single_spaced_def)
  moreover have "list_all (\<lambda>c. isspace c \<longrightarrow> c = CHR '' '') (x @ CHR '' '' # r)"
    using x r by (simp add: single_spaced_def)
  ultimately show ?case unfolding j by (simp add: single_spaced_def)
qed

lemma single_spaced_join_split: "single_spaced (join (split_ws t))"
  using split_ws_tokens [of _ t] token_single_spaced by (intro single_spaced_join) blast

lemma split_ws_eq_Nil: "split_ws s = [] \<longleftrightarrow> dropWhile isspace s = []"
proof (cases "dropWhile isspace s")
  case Nil
  then show ?thesis using split_ws_Nil [OF Nil] by simp
next
  case (Cons c cs)
  then show ?thesis using split_ws_Cons [OF Cons] by simp
qed

lemma join_split_dropWhile:
  "no_ws_run t \<Longrightarrow> \<forall>c\<in>set t. isspace c \<longrightarrow> c = CHR '' '' \<Longrightarrow>
   (t \<noteq> [] \<longrightarrow> \<not> isspace (last t)) \<Longrightarrow> join (split_ws t) = dropWhile isspace t"
proof (induction t rule: split_ws.induct)
  case (1 s)
  show ?case
  proof (cases "dropWhile isspace s")
    case Nil
    then show ?thesis by (simp only: split_ws_Nil join.simps)
  next
    case (Cons c cs)
    define tok where "tok = c # takeWhile (\<lambda>x. \<not> isspace x) cs"
    define rest where "rest = dropWhile (\<lambda>x. \<not> isspace x) cs"
    have sp: "split_ws s = tok # split_ws rest"
      unfolding tok_def rest_def by (rule split_ws_Cons [OF Cons])
    have s: "s = takeWhile isspace s @ tok @ rest"
      using takeWhile_dropWhile_id [of isspace s] Cons
      by (simp add: tok_def rest_def)
    have nr: "no_ws_run rest"
      using "1.prems"(1) by (subst (asm) s) (simp add: no_ws_run_append)
    have "set s = set (takeWhile isspace s) \<union> set tok \<union> set rest"
      by (subst s) auto
    then have sub: "set rest \<subseteq> set s"
      by blast
    show ?thesis
    proof (cases rest)
      case Nil
      have "takeWhile (\<lambda>x. \<not> isspace x) cs @ rest = cs"
        unfolding rest_def by (rule takeWhile_dropWhile_id)
      then have "tok = c # cs"
        using Nil by (simp add: tok_def)
      moreover have "split_ws rest = []"
        unfolding Nil by (rule split_ws_Nil) simp
      ultimately show ?thesis using sp Cons by simp
    next
      case rc: (Cons r rs)
      have r: "isspace r"
        using dropWhile_hd [of "\<lambda>x. \<not> isspace x" cs r rs] rc by (simp add: rest_def)
      have "r \<in> set s" using sub rc by auto
      then have r': "r = CHR '' ''" using "1.prems"(2) r by blast
      have ls: "last s = last rest"
        by (subst s) (simp add: rc)
      have sne: "s \<noteq> []" using Cons by auto
      then have lr: "\<not> isspace (last rest)" using "1.prems"(3) ls by simp
      have rsne: "rs \<noteq> []" using lr r rc by auto
      then obtain h rs' where rs: "rs = h # rs'" by (cases rs) auto
      have h: "\<not> isspace h" using nr r rc rs by simp
      have d: "dropWhile isspace rest = rs" using r h rc rs by simp
      have "join (split_ws rest) = dropWhile isspace rest"
      proof (rule "1.IH" [OF Cons, folded rest_def])
        show "no_ws_run rest" by (rule nr)
        show "\<forall>c\<in>set rest. isspace c \<longrightarrow> c = CHR '' ''" using "1.prems"(2) sub by blast
        show "rest \<noteq> [] \<longrightarrow> \<not> isspace (last rest)" using lr by simp
      qed
      moreover have "split_ws rest \<noteq> []"
        using d rsne by (simp add: split_ws_eq_Nil)
      ultimately have "join (split_ws s) = tok @ CHR '' '' # rs"
        using sp d by (simp add: join_Cons)
      also have "\<dots> = tok @ rest" using rc r' by simp
      also have "\<dots> = c # cs" by (simp add: tok_def rest_def)
      finally show ?thesis using Cons by simp
    qed
  qed
qed

lemma join_split_id: "(join (split_ws t) = t) = single_spaced t"
proof
  assume "join (split_ws t) = t"
  then show "single_spaced t" using single_spaced_join_split [of t] by simp
next
  assume s: "single_spaced t"
  then have "join (split_ws t) = dropWhile isspace t"
    by (intro join_split_dropWhile) (auto simp: single_spaced_def trimmed_def list_all_iff)
  moreover have "dropWhile isspace t = t"
    using s by (cases t) (auto simp: single_spaced_def trimmed_def)
  ultimately show "join (split_ws t) = t" by simp
qed

lemma split_ws_dropWhile: "split_ws (dropWhile isspace x) = split_ws x"
  by (subst split_ws.simps, subst (2) split_ws.simps) (simp only: dropWhile_idem)

lemma split_ws_append_spaces:
  "\<forall>c\<in>set ws. isspace c \<Longrightarrow> split_ws (y @ ws) = split_ws y"
proof (induction y rule: split_ws.induct)
  case (1 s)
  have wsn: "dropWhile isspace ws = []" using "1.prems" by simp
  show ?case
  proof (cases "dropWhile isspace s")
    case Nil
    then have "dropWhile isspace (s @ ws) = []" using "1.prems" by simp
    then show ?thesis using split_ws_Nil [OF Nil] split_ws_Nil by simp
  next
    case (Cons c cs)
    then obtain x where x: "x \<in> set s" "\<not> isspace x"
      by (metis dropWhile_eq_Nil_conv list.distinct(1))
    have d: "dropWhile isspace (s @ ws) = c # (cs @ ws)"
      using dropWhile_append1 [of x s isspace ws] x Cons by simp
    let ?n = "\<lambda>x. \<not> isspace x"
    show ?thesis
    proof (cases "\<exists>z\<in>set cs. isspace z")
      case True
      then obtain z where z: "z \<in> set cs" "\<not> ?n z" by auto
      have t: "takeWhile ?n (cs @ ws) = takeWhile ?n cs"
        using takeWhile_append1 [of z cs ?n ws] z by simp
      have r: "dropWhile ?n (cs @ ws) = dropWhile ?n cs @ ws"
        using dropWhile_append1 [of z cs ?n ws] z by simp
      have "split_ws (dropWhile ?n cs @ ws) = split_ws (dropWhile ?n cs)"
        using "1.IH" [OF Cons] "1.prems" by simp
      then show ?thesis
        using split_ws_Cons [OF d] split_ws_Cons [OF Cons] t r by simp
    next
      case False
      then have all: "\<forall>z\<in>set cs. ?n z" by simp
      have "takeWhile ?n ws = []" using "1.prems" by (cases ws) auto
      then have t: "takeWhile ?n (cs @ ws) = cs" "takeWhile ?n cs = cs"
        using all by (simp_all add: takeWhile_append2)
      have "dropWhile ?n ws = ws" using "1.prems" by (cases ws) auto
      then have r: "dropWhile ?n (cs @ ws) = ws" "dropWhile ?n cs = []"
        using all by (simp_all add: dropWhile_append2)
      have "split_ws ws = []" using wsn by (rule split_ws_Nil)
      moreover have "split_ws [] = []" by (rule split_ws_Nil) simp
      ultimately show ?thesis
        using split_ws_Cons [OF d] split_ws_Cons [OF Cons] t r by simp
    qed
  qed
qed

lemma strip_decomp:
  "\<exists>ws. (\<forall>c\<in>set ws. isspace c) \<and> dropWhile isspace x = strip x @ ws"
proof -
  define d where "d = dropWhile isspace x"
  have "rev d = takeWhile isspace (rev d) @ dropWhile isspace (rev d)" by simp
  then have "d = rev (dropWhile isspace (rev d)) @ rev (takeWhile isspace (rev d))"
    by (metis rev_append rev_rev_ident)
  moreover have "\<forall>c\<in>set (rev (takeWhile isspace (rev d))). isspace c"
    by (auto dest: set_takeWhileD)
  ultimately show ?thesis unfolding d_def strip_def by blast
qed

lemma split_ws_strip: "split_ws (strip x) = split_ws x"
proof -
  obtain ws where ws: "\<forall>c\<in>set ws. isspace c" "dropWhile isspace x = strip x @ ws"
    using strip_decomp by blast
  have "split_ws x = split_ws (strip x @ ws)"
    using split_ws_dropWhile [of x] ws(2) by simp
  then show ?thesis using split_ws_append_spaces [OF ws(1)] by simp
qed

lemma sub_spaces_word:
  "\<forall>c\<in>set tok. \<not> isspace c \<Longrightarrow> sub_spaces (tok @ rest) = tok @ sub_spaces rest"
  by (induction tok) auto

lemma sub_spaces_join_split:
  "(t \<noteq> [] \<longrightarrow> \<not> isspace (last t)) \<Longrightarrow> sub_spaces (dropWhile isspace t) = join (split_ws t)"
proof (induction t rule: split_ws.induct)
  case (1 s)
  let ?n = "\<lambda>x. \<not> isspace x"
  show ?case
  proof (cases "dropWhile isspace s")
    case Nil
    have "sub_spaces (dropWhile isspace s) = []" unfolding Nil by simp
    then show ?thesis using split_ws_Nil [OF Nil] by simp
  next
    case (Cons c cs)
    define tok where "tok = c # takeWhile ?n cs"
    define rest where "rest = dropWhile ?n cs"
    have sp: "split_ws s = tok # split_ws rest"
      unfolding tok_def rest_def by (rule split_ws_Cons [OF Cons])
    have cd: "c # cs = tok @ rest"
      by (simp add: tok_def rest_def)
    have tk: "\<forall>x\<in>set tok. \<not> isspace x"
      using dropWhile_hd [OF Cons] by (auto simp: tok_def dest: set_takeWhileD)
    have ss: "sub_spaces (dropWhile isspace s) = tok @ sub_spaces rest"
      unfolding Cons cd by (rule sub_spaces_word [OF tk])
    have sne: "s \<noteq> []" using Cons by auto
    have ls: "last s = last (c # cs)"
      using last_dropWhile_ne [of isspace s] Cons by simp
    show ?thesis
    proof (cases rest)
      case Nil
      have "split_ws rest = []" unfolding Nil by (rule split_ws_Nil) simp
      then show ?thesis using ss sp Nil by simp
    next
      case rc: (Cons r rs)
      have r: "isspace r"
        using dropWhile_hd [of ?n cs r rs] rc by (simp add: rest_def)
      have "last s = last rest" using ls cd rc by simp
      then have lr: "\<not> isspace (last rest)" using "1.prems" sne by simp
      have ih: "sub_spaces (dropWhile isspace rest) = join (split_ws rest)"
        using "1.IH" [OF Cons, folded rest_def] lr by simp
      have dn: "dropWhile isspace rest \<noteq> []"
        using lr rc by (metis dropWhile_eq_Nil_conv last_in_set list.distinct(1))
      then have ne: "split_ws rest \<noteq> []" by (simp add: split_ws_eq_Nil)
      have "sub_spaces rest = CHR '' '' # sub_spaces (dropWhile isspace rs)"
        using r rc by simp
      moreover have "dropWhile isspace rest = dropWhile isspace rs"
        using r rc by simp
      ultimately have "sub_spaces rest = CHR '' '' # join (split_ws rest)"
        using ih by simp
      then show ?thesis using ss sp ne by (simp add: join_Cons)
    qed
  qed
qed

lemma sub_spaces_strip: "sub_spaces (strip x) = join (split_ws x)"
proof -
  have t: "trimmed (strip x)" by (rule strip_trimmed)
  then have "dropWhile isspace (strip x) = strip x"
    by (cases "strip x") (auto simp: trimmed_def)
  moreover have "strip x \<noteq> [] \<longrightarrow> \<not> isspace (last (strip x))"
    using t by (auto simp: trimmed_def)
  ultimately show ?thesis
    using sub_spaces_join_split [of "strip x"] split_ws_strip [of x] by simp
qed

lemma filter_join:
  "P (CHR '' '') \<Longrightarrow> filter P (join ws) = join (map (filter P) ws)"
  by (induction ws rule: join.induct) auto

lemma clean_transcript_tokens:
  "clean_transcript x = join (map (filter is_ascii) (split_ws x))"
  unfolding clean_transcript_def sub_non_ascii_def sub_spaces_strip
  by (rule filter_join) (simp add: is_ascii_def code_def)

lemma clean_transcript_single_spaced:
  assumes "list_all (list_ex is_ascii) (split_ws x)"
  shows "single_spaced (clean_transcript x)"
  unfolding clean_transcript_tokens
proof (rule single_spaced_join, rule ballI)
  fix y
  assume "y \<in> set (map (filter is_ascii) (split_ws x))"
  then obtain w where w: "w \<in> set (split_ws x)" "y = filter is_ascii w"
    by auto
  have "list_ex is_ascii w" using assms w(1) by (simp add: list_all_iff)
  then have "y \<noteq> []" using w(2) by (auto simp: list_ex_iff filter_empty_conv)
  moreover have "\<forall>c\<in>set y. \<not> isspace c"
    using split_ws_tokens [OF w(1)] w(2) by auto
  ultimately show "y \<noteq> [] \<and> single_spaced y"
    using token_single_spaced by blast
qed

subsection \<open>The claims on the cleaner\<close>

text \<open>
  C3. Cleaning twice is not the same as cleaning once. The run of non-ASCII characters is
  deleted after the whitespace has been collapsed, so in \<open>a, space, e-acute, space, b\<close> the
  two spaces around the deleted character meet in the output; a second pass collapses
  them.
\<close>

theorem clean_transcript_twice_differs:
  "clean_transcript [CHR ''a'', CHR '' '', CHR 0xE9, CHR '' '', CHR ''b''] = ''a  b''
   \<and> clean_transcript (clean_transcript [CHR ''a'', CHR '' '', CHR 0xE9, CHR '' '', CHR ''b''])
       = ''a b''"
  by (simp add: clean_transcript_def strip_def sub_non_ascii_def is_ascii_def isspace_def code_def)

text \<open>
  C8, as stated, fails twice. The pattern of the last substitution keeps the whole range
  from code point 0 to 127, so a control character that is not whitespace stays in the
  output. And a token made of non-ASCII characters only is deleted whole, after the
  whitespace around it has been collapsed, so the two spaces around it stay (see C3).
\<close>

theorem clean_transcript_keeps_control_char:
  "clean_transcript [CHR ''a'', CHR 0x01, CHR ''b''] = [CHR ''a'', CHR 0x01, CHR ''b'']
   \<and> \<not> list_all printable (clean_transcript [CHR ''a'', CHR 0x01, CHR ''b''])
   \<and> \<not> list_all (list_ex is_ascii) (split_ws [CHR ''a'', CHR '' '', CHR 0xE9, CHR '' '', CHR ''b''])
   \<and> \<not> no_ws_run (clean_transcript [CHR ''a'', CHR '' '', CHR 0xE9, CHR '' '', CHR ''b''])"
  by code_simp

text \<open>
  C8, amended. Every character of the output of \<open>clean_transcript\<close> is in the 7-bit ASCII
  range (code point at most 127), and the only whitespace character of the output is the
  space. When every whitespace-delimited token of the input has at least one ASCII
  character, the output has no whitespace at either end and no two whitespace characters
  in a row.
\<close>

theorem clean_transcript_output:
  "(\<forall>c\<in>set (clean_transcript x). code c \<le> 127 \<and> (isspace c \<longrightarrow> c = CHR '' ''))
   \<and> (list_all (list_ex is_ascii) (split_ws x)
        \<longrightarrow> trimmed (clean_transcript x) \<and> no_ws_run (clean_transcript x))"
proof (intro conjI ballI impI)
  fix c
  assume "c \<in> set (clean_transcript x)"
  then show "code c \<le> 127"
    by (simp add: clean_transcript_def sub_non_ascii_def is_ascii_def)
next
  fix c
  assume "c \<in> set (clean_transcript x)" "isspace c"
  then show "c = CHR '' ''"
    using sub_spaces_space [of c "strip x"] by (simp add: clean_transcript_def sub_non_ascii_def)
next
  assume "list_all (list_ex is_ascii) (split_ws x)"
  then have s: "single_spaced (clean_transcript x)"
    by (rule clean_transcript_single_spaced)
  show "trimmed (clean_transcript x)" using s by (simp add: single_spaced_def)
  show "no_ws_run (clean_transcript x)" using s by (simp add: single_spaced_def)
qed

theorem clean_transcript_output_witness:
  "list_all (list_ex is_ascii)
     (split_ws [CHR '' '', CHR ''c'', CHR ''a'', CHR ''f'', CHR 0xE9, CHR 0xA0, CHR 0x0A,
                CHR ''b'', CHR 0x01, CHR '' ''])
   \<and> clean_transcript [CHR '' '', CHR ''c'', CHR ''a'', CHR ''f'', CHR 0xE9, CHR 0xA0, CHR 0x0A,
                CHR ''b'', CHR 0x01, CHR '' '']
       = [CHR ''c'', CHR ''a'', CHR ''f'', CHR '' '', CHR ''b'', CHR 0x01]
   \<and> list_all (\<lambda>c. code c \<le> 127 \<and> (isspace c \<longrightarrow> c = CHR '' ''))
       (clean_transcript [CHR '' '', CHR ''c'', CHR ''a'', CHR ''f'', CHR 0xE9, CHR 0xA0,
                CHR 0x0A, CHR ''b'', CHR 0x01, CHR '' ''])
   \<and> trimmed (clean_transcript [CHR '' '', CHR ''c'', CHR ''a'', CHR ''f'', CHR 0xE9, CHR 0xA0,
                CHR 0x0A, CHR ''b'', CHR 0x01, CHR '' ''])
   \<and> no_ws_run (clean_transcript [CHR '' '', CHR ''c'', CHR ''a'', CHR ''f'', CHR 0xE9, CHR 0xA0,
                CHR 0x0A, CHR ''b'', CHR 0x01, CHR '' ''])"
proof -
  have h: "list_all (list_ex is_ascii)
     (split_ws [CHR '' '', CHR ''c'', CHR ''a'', CHR ''f'', CHR 0xE9, CHR 0xA0, CHR 0x0A,
                CHR ''b'', CHR 0x01, CHR '' ''])"
    by code_simp
  have e: "clean_transcript [CHR '' '', CHR ''c'', CHR ''a'', CHR ''f'', CHR 0xE9, CHR 0xA0, CHR 0x0A,
                CHR ''b'', CHR 0x01, CHR '' '']
       = [CHR ''c'', CHR ''a'', CHR ''f'', CHR '' '', CHR ''b'', CHR 0x01]"
    by code_simp
  from clean_transcript_output
    [of "[CHR '' '', CHR ''c'', CHR ''a'', CHR ''f'', CHR 0xE9, CHR 0xA0, CHR 0x0A,
          CHR ''b'', CHR 0x01, CHR '' '']"] h e
  show ?thesis unfolding list_all_iff by blast
qed

section \<open>Properties of the season label\<close>

lemma str_nat_four_digits:
  assumes "1000 \<le> n" "n \<le> 9999"
  shows "str_nat n = [digit (n div 1000), digit (n div 100 mod 10), digit (n div 10 mod 10), digit (n mod 10)]"
proof -
  have a: "\<not> n < 10" "\<not> n div 10 < 10" "\<not> n div 100 < 10" "n div 1000 < 10"
    using assms by auto
  have b: "n div 10 div 10 = n div 100" "n div 100 div 10 = n div 1000"
    by (simp_all add: div_mult2_eq [symmetric] del: div_mult2_eq)
  have "str_nat n = str_nat (n div 10) @ [digit (n mod 10)]"
    using a by (subst str_nat.simps) simp
  also have "str_nat (n div 10) = str_nat (n div 100) @ [digit (n div 10 mod 10)]"
    using a b by (subst str_nat.simps) simp
  also have "str_nat (n div 100) = str_nat (n div 1000) @ [digit (n div 100 mod 10)]"
    using a b by (subst str_nat.simps) simp
  also have "str_nat (n div 1000) = [digit (n div 1000)]"
    using a by (subst str_nat.simps) simp
  finally show ?thesis by simp
qed

lemma drop2_str:
  assumes "1000 \<le> y" "y \<le> 9999"
  shows "drop 2 (str y) = two_digit_suffix y"
proof -
  define n where "n = nat y"
  have n: "1000 \<le> n" "n \<le> 9999" using assms by (auto simp: n_def)
  have "nat (y mod 100) = n mod 100" using assms by (simp add: n_def nat_mod_distrib)
  moreover have "n mod 100 = 10 * (n div 10 mod 10) + n mod 10"
    using mod_mult2_eq [of n 10 10] by simp
  then have "n mod 100 div 10 = n div 10 mod 10"
    by simp
  moreover have "n mod 100 mod 10 = n mod 10"
    by (simp add: mod_mod_cancel)
  ultimately show ?thesis
    using assms str_nat_four_digits [OF n] by (simp add: str_def two_digit_suffix_def n_def)
qed

text \<open>
  C7, amended. When the year whose suffix is taken (the next year from October on, the
  current year before) has four digits, the label is the season's first year, a hyphen
  and the last two digits of that year: the current year and the suffix of the next from
  October on, the previous year and the suffix of the current one before October.
\<close>

theorem season_label:
  assumes "1000 \<le> (if 10 \<le> month now then year now + 1 else year now)"
    and "(if 10 \<le> month now then year now + 1 else year now) \<le> 9999"
  shows "get_current_season now = season_label_spec now"
  using assms drop2_str [of "year now + 1"] drop2_str [of "year now"]
  by (simp add: get_current_season_def season_label_spec_def split: if_splits)

theorem season_label_witness:
  "get_current_season \<lparr>year = 2024, month = 11\<rparr> = season_label_spec \<lparr>year = 2024, month = 11\<rparr>
   \<and> season_label_spec \<lparr>year = 2024, month = 11\<rparr> = ''2024-25''
   \<and> get_current_season \<lparr>year = 2025, month = 3\<rparr> = season_label_spec \<lparr>year = 2025, month = 3\<rparr>
   \<and> season_label_spec \<lparr>year = 2025, month = 3\<rparr> = ''2024-25''"
  using season_label [of "\<lparr>year = 2024, month = 11\<rparr>"] season_label [of "\<lparr>year = 2025, month = 3\<rparr>"]
  by (simp add: season_label_spec_def two_digit_suffix_def str_def str_nat.simps digit_def)

text \<open>
  C7, as stated, fails in October of the year 9999, the last year of \<open>datetime\<close>: the next
  year has five digits and dropping two leaves three.
\<close>

theorem season_label_year_9999:
  "get_current_season \<lparr>year = 9999, month = 10\<rparr> = ''9999-000''
   \<and> season_label_spec \<lparr>year = 9999, month = 10\<rparr> = ''9999-00''"
  by (simp add: get_current_season_def season_label_spec_def two_digit_suffix_def str_def str_nat.simps digit_def)

section \<open>Properties of the name corrector\<close>

lemma correct_loop_Inr:
  "correct_loop sc roster acc ws = Inr ys \<Longrightarrow> ys = acc @ map (appended sc roster) ws"
proof (induction ws arbitrary: acc)
  case Nil
  then show ?case by simp
next
  case (Cons w ws)
  show ?case
  proof (cases "istitle w")
    case False
    then show ?thesis using Cons.prems Cons.IH [of "acc @ [w]"] by (simp add: appended_def)
  next
    case True
    then obtain p where p: "find_closest_player_name sc w roster = Inr p"
      using Cons.prems by (cases "find_closest_player_name sc w roster") auto
    show ?thesis
    proof (cases p)
      case None
      then show ?thesis using True p Cons.prems Cons.IH [of "acc @ [w]"] by (simp add: appended_def)
    next
      case (Some n)
      then show ?thesis
        using True p Cons.prems Cons.IH [of "acc @ [w]"] Cons.IH [of "acc @ [n]"]
        by (cases "n = []") (simp_all add: appended_def)
    qed
  qed
qed

lemma find_closest_nonempty:
  "roster \<noteq> [] \<Longrightarrow> \<exists>p. find_closest_player_name sc w roster = Inr p"
  by (cases roster) (auto simp: find_closest_player_name_def extractOne_def split: prod.splits)

lemma correct_loop_nonempty:
  "roster \<noteq> [] \<Longrightarrow> correct_loop sc roster acc ws = Inr (acc @ map (appended sc roster) ws)"
proof (induction ws arbitrary: acc)
  case Nil
  then show ?case by simp
next
  case (Cons w ws)
  obtain p where p: "find_closest_player_name sc w roster = Inr p"
    using find_closest_nonempty [OF Cons.prems] by blast
  show ?case
  proof (cases p)
    case None
    then show ?thesis using p Cons by (simp add: appended_def)
  next
    case (Some n)
    then show ?thesis using p Cons by (cases "n = []") (simp_all add: appended_def)
  qed
qed

lemma correct_loop_no_title:
  "list_all (\<lambda>w. \<not> istitle w) ws \<Longrightarrow> correct_loop sc roster acc ws = Inr (acc @ ws)"
  by (induction ws arbitrary: acc) auto


lemma max_by_score_first:
  "\<exists>pre r post. b # xs = pre @ r # post
     \<and> (\<forall>n\<in>set pre. sc q n < sc q r) \<and> (\<forall>n\<in>set post. sc q n \<le> sc q r)
     \<and> max_by_score (b, sc q b) (map (\<lambda>c. (c, sc q c)) xs) = (r, sc q r)"
proof (induction xs arbitrary: b)
  case Nil
  have "[b] = [] @ b # []" by simp
  then show ?case by fastforce
next
  case (Cons x xs)
  define b' where "b' = (if sc q b < sc q x then x else b)"
  have step: "max_by_score (b, sc q b) (map (\<lambda>c. (c, sc q c)) (x # xs))
      = max_by_score (b', sc q b') (map (\<lambda>c. (c, sc q c)) xs)"
    by (simp add: b'_def)
  from Cons.IH [of b'] obtain pre r post where
    d: "b' # xs = pre @ r # post" and
    lt: "\<forall>n\<in>set pre. sc q n < sc q r" and
    le: "\<forall>n\<in>set post. sc q n \<le> sc q r" and
    m: "max_by_score (b', sc q b') (map (\<lambda>c. (c, sc q c)) xs) = (r, sc q r)"
    by blast
  show ?case
  proof (cases "sc q b < sc q x")
    case True
    then have b': "b' = x" by (simp add: b'_def)
    show ?thesis
    proof (cases pre)
      case Nil
      then have "b # x # xs = [b] @ r # post" "sc q b < sc q r"
        using d b' True by auto
      then show ?thesis using le m step by (metis empty_iff empty_set set_ConsD)
    next
      case (Cons p pre')
      then have "b # x # xs = (b # x # pre') @ r # post" "sc q x < sc q r" "\<forall>n\<in>set pre'. sc q n < sc q r"
        using d b' lt by auto
      moreover from this True have "\<forall>n\<in>set (b # x # pre'). sc q n < sc q r" by auto
      ultimately show ?thesis using le m step by metis
    qed
  next
    case False
    then have b': "b' = b" by (simp add: b'_def)
    show ?thesis
    proof (cases pre)
      case Nil
      then have "b # x # xs = [] @ r # (x # xs)" "r = b" "post = xs"
        using d b' by auto
      moreover from this False le have "\<forall>n\<in>set (x # xs). sc q n \<le> sc q r" by auto
      ultimately show ?thesis using m step by (metis empty_iff empty_set)
    next
      case (Cons p pre')
      then have e: "b # x # xs = (b # x # pre') @ r # post" "sc q b < sc q r" "\<forall>n\<in>set pre'. sc q n < sc q r"
        using d b' lt by auto
      moreover from this False have "\<forall>n\<in>set (b # x # pre'). sc q n < sc q r" by auto
      ultimately show ?thesis using le m step by metis
    qed
  qed
qed

lemma extractOne_first_best:
  assumes "roster \<noteq> []"
  shows "\<exists>pre best post. roster = pre @ best # post
     \<and> (\<forall>n\<in>set pre. sc q n < sc q best) \<and> (\<forall>n\<in>set post. sc q n \<le> sc q best)
     \<and> extractOne sc q roster = Some (best, sc q best)"
proof -
  obtain b xs where r: "roster = b # xs" using assms by (cases roster) auto
  from max_by_score_first [of b xs sc q] show ?thesis
    unfolding r by (simp add: extractOne_def)
qed

lemma appended_title:
  assumes "roster \<noteq> []" "istitle w"
  shows "\<exists>pre best post. roster = pre @ best # post
     \<and> (\<forall>n\<in>set pre. sc w n < sc w best) \<and> (\<forall>n\<in>set post. sc w n \<le> sc w best)
     \<and> appended sc roster w = (if 80 \<le> sc w best \<and> best \<noteq> [] then best else w)"
proof -
  from extractOne_first_best [OF assms(1), of sc w] obtain pre best post where
    d: "roster = pre @ best # post" "\<forall>n\<in>set pre. sc w n < sc w best"
       "\<forall>n\<in>set post. sc w n \<le> sc w best" and
    e: "extractOne sc w roster = Some (best, sc w best)"
    by blast
  have "appended sc roster w = (if 80 \<le> sc w best \<and> best \<noteq> [] then best else w)"
    using assms(2) e by (simp add: appended_def find_closest_player_name_def)
  with d show ?thesis by blast
qed

text \<open>
  C1, amended. With a non-empty roster the corrector returns one token per token of the
  text, joined by single spaces, and for every title-cased token the output token is
  decided by the first roster name that reaches the highest score for it (every name
  before it scores strictly less, none after it scores more): that name when its score
  is at least 80 and the name is not the empty string, the token itself otherwise. So
  \<open>Lebron\<close> is replaced by \<open>LeBron James\<close> when that is the first best-scoring name of
  the roster and its score is at least 80.
\<close>

theorem corrector_first_best:
  assumes "roster \<noteq> []"
  shows "\<exists>ys. correct_player_names sc text roster = Inr (join ys)
      \<and> length ys = length (split_ws text)
      \<and> (\<forall>i<length ys. istitle (split_ws text ! i) \<longrightarrow>
          (\<exists>pre best post. roster = pre @ best # post
             \<and> (\<forall>n\<in>set pre. sc (split_ws text ! i) n < sc (split_ws text ! i) best)
             \<and> (\<forall>n\<in>set post. sc (split_ws text ! i) n \<le> sc (split_ws text ! i) best)
             \<and> ys ! i = (if 80 \<le> sc (split_ws text ! i) best \<and> best \<noteq> []
                          then best else split_ws text ! i)))"
proof -
  define ys where "ys = map (appended sc roster) (split_ws text)"
  have "correct_player_names sc text roster = Inr (join ys)"
    using correct_loop_nonempty [OF assms, of sc "[]" "split_ws text"]
    by (simp add: correct_player_names_def ys_def)
  moreover have "length ys = length (split_ws text)"
    by (simp add: ys_def)
  moreover have "\<forall>i<length ys. istitle (split_ws text ! i) \<longrightarrow>
          (\<exists>pre best post. roster = pre @ best # post
             \<and> (\<forall>n\<in>set pre. sc (split_ws text ! i) n < sc (split_ws text ! i) best)
             \<and> (\<forall>n\<in>set post. sc (split_ws text ! i) n \<le> sc (split_ws text ! i) best)
             \<and> ys ! i = (if 80 \<le> sc (split_ws text ! i) best \<and> best \<noteq> []
                          then best else split_ws text ! i))"
  proof (intro allI impI)
    fix i
    assume i: "i < length ys" and t: "istitle (split_ws text ! i)"
    have "ys ! i = appended sc roster (split_ws text ! i)"
      using i by (simp add: ys_def)
    then show "\<exists>pre best post. roster = pre @ best # post
             \<and> (\<forall>n\<in>set pre. sc (split_ws text ! i) n < sc (split_ws text ! i) best)
             \<and> (\<forall>n\<in>set post. sc (split_ws text ! i) n \<le> sc (split_ws text ! i) best)
             \<and> ys ! i = (if 80 \<le> sc (split_ws text ! i) best \<and> best \<noteq> []
                          then best else split_ws text ! i)"
      using appended_title [OF assms t, of sc] by simp
  qed
  ultimately show ?thesis by blast
qed

theorem corrector_first_best_witness:
  "[''Kevin Durant'', ''LeBron James''] \<noteq> []
   \<and> word_set_scorer ''Lebron'' ''LeBron James'' = 100
   \<and> word_set_scorer ''Lebron'' ''Kevin Durant'' = 0
   \<and> correct_player_names word_set_scorer ''Lebron scored'' [''Kevin Durant'', ''LeBron James'']
       = Inr ''LeBron James scored''"
proof -
  have h: "[''Kevin Durant'', ''LeBron James''] \<noteq> []"
    by simp
  have e: "word_set_scorer ''Lebron'' ''LeBron James'' = 100"
     "word_set_scorer ''Lebron'' ''Kevin Durant'' = 0"
     "correct_player_names word_set_scorer ''Lebron scored'' [''Kevin Durant'', ''LeBron James'']
       = Inr ''LeBron James scored''"
    by code_simp+
  from corrector_first_best [OF h, of word_set_scorer "''Lebron scored''"] e h
  show ?thesis by simp
qed

text \<open>
  C1, as stated, fails for a roster that merely contains \<open>LeBron James\<close>: an earlier name
  with the same score wins. A token-set score gives 100 to both names below, since the
  one word of the query is a word of each.
\<close>

theorem corrector_earlier_name_wins:
  "word_set_scorer ''Lebron'' ''LeBron James'' = 100
   \<and> word_set_scorer ''Lebron'' ''LeBron Allen'' = 100
   \<and> istitle ''Lebron''
   \<and> correct_player_names word_set_scorer ''Lebron'' [''LeBron Allen'', ''LeBron James'']
       = Inr ''LeBron Allen''"
  by code_simp

text \<open>
  C2. With an empty roster the first title-cased token makes \<open>extractOne\<close> return \<open>None\<close>,
  and unpacking it raises \<open>TypeError\<close>: nothing is passed through.
\<close>

theorem corrector_empty_roster_raises:
  "correct_player_names sc ''Lebron scored'' [] = Inl TypeError"
  by (simp add: correct_player_names_def split_ws.simps isspace_def code_def istitle_def
      isupper_def islower_def istitlecase_def find_closest_player_name_def extractOne_def)

lemma upper_not_lower: "isupper c \<or> istitlecase c \<Longrightarrow> \<not> islower c"
  by (auto simp: isupper_def islower_def istitlecase_def)

lemma all_less_Suc_shift: "(\<forall>i<Suc n. P i) = (P 0 \<and> (\<forall>i<n. P (Suc i)))"
  by (auto simp: less_Suc_eq_0_disj)

lemma istitle_scan_step:
  "istitle_scan p c (ch # rest) =
     (\<not> ((isupper ch \<or> istitlecase ch) \<and> p) \<and> \<not> (islower ch \<and> \<not> p)
      \<and> istitle_scan (cased ch) (c \<or> cased ch) rest)"
  using upper_not_lower [of ch] by (auto simp: cased_def)

lemma follows_0: "follows p s 0 = p"
  by (simp add: follows_def)

lemma follows_Suc: "follows p (ch # rest) (Suc i) = follows (cased ch) rest i"
  by (cases i) (simp_all add: follows_def)

lemma istitle_scan_rule:
  "istitle_scan p c s =
     ((c \<or> (\<exists>x\<in>set s. cased x)) \<and>
      (\<forall>i<length s. (isupper (s ! i) \<or> istitlecase (s ! i) \<longrightarrow> \<not> follows p s i)
         \<and> (islower (s ! i) \<longrightarrow> follows p s i)))"
proof (induction s arbitrary: p c)
  case Nil
  then show ?case by simp
next
  case (Cons ch rest)
  define R where "R = (\<forall>i<length rest.
       (isupper (rest ! i) \<or> istitlecase (rest ! i) \<longrightarrow> \<not> follows (cased ch) rest i)
       \<and> (islower (rest ! i) \<longrightarrow> follows (cased ch) rest i))"
  define E where "E = (\<exists>x\<in>set rest. cased x)"
  have ih: "istitle_scan (cased ch) (c \<or> cased ch) rest = (((c \<or> cased ch) \<or> E) \<and> R)"
    unfolding R_def E_def by (rule Cons.IH)
  have rhs: "(\<forall>i<length (ch # rest).
        (isupper ((ch # rest) ! i) \<or> istitlecase ((ch # rest) ! i) \<longrightarrow> \<not> follows p (ch # rest) i)
        \<and> (islower ((ch # rest) ! i) \<longrightarrow> follows p (ch # rest) i))
      = (((isupper ch \<or> istitlecase ch \<longrightarrow> \<not> p) \<and> (islower ch \<longrightarrow> p)) \<and> R)"
    unfolding length_Cons all_less_Suc_shift R_def by (simp add: follows_Suc follows_0)
  have ex: "(\<exists>x\<in>set (ch # rest). cased x) = (cased ch \<or> E)"
    by (simp add: E_def)
  show ?case
    unfolding istitle_scan_step ih rhs ex by blast
qed

lemma istitle_title_rule: "istitle w = title_rule w"
proof -
  have a: "\<And>i. (isupper (w ! i) \<or> istitlecase (w ! i) \<longrightarrow> \<not> follows False w i)
      = (isupper (w ! i) \<or> istitlecase (w ! i) \<longrightarrow> i = 0 \<or> \<not> cased (w ! (i - 1)))"
    by (simp add: follows_def)
  have b: "\<And>i. (islower (w ! i) \<longrightarrow> follows False w i)
      = (islower (w ! i) \<longrightarrow> 0 < i \<and> cased (w ! (i - 1)))"
    by (simp add: follows_def)
  have u: "\<And>P. (\<forall>i\<in>set [0..<length w]. P i) = (\<forall>i<length w. P i)"
    by auto
  show ?thesis
    unfolding istitle_def title_rule_def istitle_scan_rule list_all_iff list_ex_iff a b u
    by (simp only: simp_thms)
qed

text \<open>
  C4, amended. With a non-empty roster, the corrector looks for a roster match for a
  token exactly when the token is title-cased in the sense of \<open>str.istitle\<close>: it has a
  cased character, each of its uppercase or titlecase characters stands first or after
  an uncased character, and each of its lowercase characters stands after a cased one.
  For such a token the output token is the name \<open>find_closest_player_name\<close> returns,
  when it returns a non-empty one, and the token itself otherwise; every other token is
  passed through unchanged.
\<close>

theorem corrector_title_rule:
  assumes "roster \<noteq> []"
  shows "correct_player_names sc text roster =
     Inr (join (map (\<lambda>w. if title_rule w
                           then (case find_closest_player_name sc w roster of
                                   Inr (Some n) \<Rightarrow> if n = [] then w else n
                                 | _ \<Rightarrow> w)
                           else w)
                  (split_ws text)))"
proof -
  have a: "(\<lambda>w. if title_rule w
                 then (case find_closest_player_name sc w roster of
                         Inr (Some n) \<Rightarrow> if n = [] then w else n
                       | _ \<Rightarrow> w)
                 else w) = appended sc roster"
    by (rule ext) (simp add: appended_def istitle_title_rule)
  show ?thesis
    unfolding a using correct_loop_nonempty [OF assms, of sc "[]" "split_ws text"]
    by (simp add: correct_player_names_def)
qed

theorem corrector_title_rule_witness:
  "[''LeBron James''] \<noteq> []
   \<and> title_rule ''(Lebron)'' \<and> \<not> title_rule ''LeBron'' \<and> \<not> title_rule ''scored''
   \<and> correct_player_names word_set_scorer ''(Lebron) scored LeBron'' [''LeBron James'']
       = Inr ''LeBron James scored LeBron''"
proof -
  have h: "[''LeBron James''] \<noteq> []"
    by simp
  have e: "title_rule ''(Lebron)''" "\<not> title_rule ''LeBron''" "\<not> title_rule ''scored''"
    by code_simp+
  have d: "correct_player_names word_set_scorer ''(Lebron) scored LeBron'' [''LeBron James'']
       = Inr ''LeBron James scored LeBron''"
    by code_simp
  from corrector_title_rule [OF h, of word_set_scorer "''(Lebron) scored LeBron''"] e d h
  show ?thesis by simp
qed

text \<open>
  C4, as stated, fails: \<open>(Lebron)\<close> does not begin with an uppercase character, yet it
  is title-cased for \<open>istitle\<close>, a match is looked for, and the token is replaced.
\<close>

theorem corrector_matches_parenthesised_token:
  "\<not> spec_title_cased ''(Lebron)''
   \<and> correct_player_names word_set_scorer ''(Lebron) scored'' [''LeBron James'']
       = Inr ''LeBron James scored''"
  by code_simp

text \<open>
  C9, amended. For a text with no title-cased token the corrector returns, for every
  roster, the tokens of the text joined by single spaces. That is the text itself
  exactly when the text is single-spaced already; otherwise the corrector itself
  normalises the whitespace.
\<close>

theorem corrector_no_title_tokens:
  assumes "list_all (\<lambda>w. \<not> istitle w) (split_ws text)"
  shows "correct_player_names sc text roster = Inr (join (split_ws text))
     \<and> (join (split_ws text) = text) = single_spaced text"
  using assms correct_loop_no_title [OF assms, of sc roster "[]"]
  by (simp add: correct_player_names_def join_split_id)

theorem corrector_no_title_tokens_witness:
  "list_all (\<lambda>w. \<not> istitle w) (split_ws ''he  scored 30'')
   \<and> correct_player_names word_set_scorer ''he  scored 30'' [''LeBron James''] = Inr ''he scored 30''
   \<and> \<not> single_spaced ''he  scored 30''
   \<and> single_spaced ''he scored 30''"
proof -
  have h: "list_all (\<lambda>w. \<not> istitle w) (split_ws ''he  scored 30'')"
    by code_simp
  have e: "join (split_ws ''he  scored 30'') = ''he scored 30''"
     "\<not> single_spaced ''he  scored 30''" "single_spaced ''he scored 30''"
    by code_simp+
  from corrector_no_title_tokens [OF h, of word_set_scorer "[''LeBron James'']"] h e
  show ?thesis by simp
qed

text \<open>
  C9, as stated, fails: the corrector normalises whitespace itself, and does so even on
  an output of the cleaner. The cleaner leaves two spaces in a row below (see C3); no
  token is title-cased, and the corrector returns a different text.
\<close>

theorem corrector_normalises_cleaner_output:
  "clean_transcript [CHR ''a'', CHR '' '', CHR 0xE9, CHR '' '', CHR ''b''] = ''a  b''
   \<and> list_all (\<lambda>w. \<not> istitle w) (split_ws ''a  b'')
   \<and> correct_player_names word_set_scorer ''a  b'' [''LeBron James''] = Inr ''a b''"
  by code_simp

lemma extractOne_in_roster:
  assumes "extractOne sc q roster = Some (b, s)"
  shows "b \<in> set roster"
proof -
  have "roster \<noteq> []" using assms by (auto simp: extractOne_def)
  from extractOne_first_best [OF this, of sc q] assms show ?thesis by auto
qed

lemma appended_cases:
  "appended sc roster w = w \<or> (appended sc roster w \<in> set roster \<and> appended sc roster w \<noteq> [])"
proof (cases "find_closest_player_name sc w roster")
  case (Inl e)
  then show ?thesis by (simp add: appended_def)
next
  case (Inr p)
  show ?thesis
  proof (cases p)
    case None
    then show ?thesis using Inr by (simp add: appended_def)
  next
    case (Some n)
    then have "n \<in> set roster"
      using Inr extractOne_in_roster [of sc w roster n]
      by (auto simp: find_closest_player_name_def split: option.splits prod.splits if_splits)
    then show ?thesis using Inr Some by (simp add: appended_def)
  qed
qed

text \<open>
  C10, amended. When the corrector returns, its result is a list of tokens joined by
  single spaces, one per token of the text, each either the token of the text at that
  position or a non-empty roster name. When every roster name is single-spaced, the
  result is single-spaced too: no whitespace at either end and no two whitespace
  characters in a row.
\<close>

theorem corrector_token_count:
  assumes "correct_player_names sc text roster = Inr out"
  shows "\<exists>ys. out = join ys \<and> length ys = length (split_ws text)
     \<and> (\<forall>i<length ys. ys ! i = split_ws text ! i \<or> (ys ! i \<in> set roster \<and> ys ! i \<noteq> []))
     \<and> (list_all single_spaced roster \<longrightarrow> single_spaced out)"
proof -
  define ys where "ys = map (appended sc roster) (split_ws text)"
  obtain zs where z: "correct_loop sc roster [] (split_ws text) = Inr zs" "out = join zs"
    using assms by (auto simp: correct_player_names_def split: sum.splits)
  have o: "out = join ys"
    using correct_loop_Inr [OF z(1)] z(2) by (simp add: ys_def)
  have l: "length ys = length (split_ws text)"
    by (simp add: ys_def)
  have c: "\<forall>i<length ys. ys ! i = split_ws text ! i \<or> (ys ! i \<in> set roster \<and> ys ! i \<noteq> [])"
    using appended_cases [of sc roster] by (simp add: ys_def)
  have s: "single_spaced out" if r: "list_all single_spaced roster"
    unfolding o
  proof (rule single_spaced_join, rule ballI)
    fix y assume "y \<in> set ys"
    then obtain i where i: "i < length ys" "y = ys ! i"
      by (auto simp: in_set_conv_nth)
    from c i consider "y = split_ws text ! i" | "y \<in> set roster \<and> y \<noteq> []" by auto
    then show "y \<noteq> [] \<and> single_spaced y"
    proof cases
      case 1
      then have "y \<in> set (split_ws text)" using i l by simp
      then show ?thesis using split_ws_tokens [of y "text"] token_single_spaced [of y] by blast
    next
      case 2
      then show ?thesis using r by (simp add: list_all_iff)
    qed
  qed
  show ?thesis using o l c s by blast
qed

theorem corrector_token_count_witness:
  "correct_player_names word_set_scorer '' Lebron  scored'' [''Kevin Durant'', ''LeBron James'']
       = Inr ''LeBron James scored''
   \<and> length (split_ws '' Lebron  scored'') = 2
   \<and> list_all single_spaced [''Kevin Durant'', ''LeBron James'']
   \<and> single_spaced ''LeBron James scored''"
proof -
  have e: "correct_player_names word_set_scorer '' Lebron  scored'' [''Kevin Durant'', ''LeBron James'']
       = Inr ''LeBron James scored''"
    by code_simp
  have r: "list_all single_spaced [''Kevin Durant'', ''LeBron James'']"
    by code_simp
  have l: "length (split_ws '' Lebron  scored'') = 2"
    by code_simp
  from corrector_token_count [OF e] r l e show ?thesis by blast
qed

text \<open>
  C10, as stated, fails for a roster name with two spaces in a row: the name is
  appended as it is, and the result has consecutive spaces.
\<close>

theorem corrector_keeps_spaces_of_name:
  "correct_player_names word_set_scorer ''Lebron'' [''LeBron  James''] = Inr ''LeBron  James''
   \<and> \<not> no_ws_run ''LeBron  James''"
  by code_simp

section \<open>Properties of the roster cache and the fetcher\<close>

text \<open>
  Where the cache load fails soft: a missing file and a text file that is not JSON give
  \<open>None\<close>.
\<close>

lemma load_cache_soft:
  "cache_file w = Missing \<or> cache_file w = Malformed \<Longrightarrow> load_cache w = Inr PNone"
  by (auto simp: load_cache_def)

text \<open>
  When the request or the parsing fails and the cache load returns nothing to use, the
  caller gets the empty frame and the cache file stays as it was.
\<close>

lemma fetch_players_without_cache:
  assumes "request_players w = Inl e" "load_cache w = Inr v" "\<not> truthy v"
  shows "fetch_players w use_cache invalidate_cache = (Inr (DataFrame (PList [])), cache_file w)"
  using assms
  by (simp add: fetch_players_def fetch_after_cache_def cache_fallback_def and_then_def)

text \<open>
  C5. The cache load raises on a cache file that is valid JSON of the wrong shape: the
  object \<open>{}\<close> has no key \<open>timestamp\<close>, which is \<open>KeyError\<close>, and the array \<open>[]\<close> takes
  no string index, which is \<open>TypeError\<close>. Neither is \<open>json.JSONDecodeError\<close>, the only
  exception the function catches.
\<close>

theorem load_cache_wrong_shape_raises:
  "load_cache \<lparr>cache_file = Parsed (PDict []), clock = t, today = d, network = n, writable = b\<rparr>
     = Inl KeyError
   \<and> load_cache \<lparr>cache_file = Parsed (PList []), clock = t, today = d, network = n, writable = b\<rparr>
     = Inl TypeError"
  by (simp add: load_cache_def and_then_def)

text \<open>
  C6. With the cache file \<open>{}\<close> and a request that fails, \<open>fetch_players\<close> catches the
  failure of the request and then calls \<open>_load_cache\<close> for the fallback, outside the
  \<open>try\<close> block: the \<open>KeyError\<close> of the load reaches the caller.
\<close>

theorem fetch_players_propagates_cache_error:
  "fetch_players
     \<lparr>cache_file = Parsed (PDict []), clock = t, today = d, network = ConnectionFailed,
      writable = b\<rparr> True True
   = (Inl KeyError, Parsed (PDict []))"
  by (simp add: fetch_players_def fetch_after_cache_def request_players_def cache_fallback_def
      load_cache_def and_then_def)

end
